theory Spec2Isabelle
  imports Complex_Main
begin

section \<open>Data of the analysis\<close>

text \<open>
  The program is the body of \<open>main\<close> in \<open>Water_Level_Analysis.py\<close>, lines 43 to 107:
  the data frame \<open>df\<close> (sorted by \<open>Timestamp\<close>, re-indexed from 0) is a list of rows, a
  row's position being its label. A timestamp is the number of seconds on the time axis,
  so that \<open>(t1 - t0).total_seconds()\<close> is the difference \<open>t1 - t0\<close>. Levels and times are
  real numbers: the model has no NaN and no infinity, and floating point is idealised to
  exact arithmetic.
\<close>

record row =
  Timestamp :: real
  Level_above_Pump :: real

text \<open>
  What the code can raise. \<open>NonFinite\<close> stands for a division by zero, which numpy
  answers with \<open>inf\<close> or \<open>nan\<close> and a warning: a result that is no real number.
\<close>

datatype error = IndexError | ValueError | NonFinite

text \<open>The dictionary appended to \<open>cycles\<close> (lines 94 to 107), one field per key.\<close>

record cycle =
  cycle_number :: nat
  start_time :: real
  SWL_m :: real
  Max_Drawdown_m :: real
  Drawdown_Rate_m_hr :: real
  Recovery_Time_hr :: real
  Recharge_Rate_m_hr :: real
  Time_to_Max_Drawdown_hr :: real
  Recovery_Time_90_hr :: "real option"
  Hourly_Fluctuation_m_hr :: real
  Cumulative_Drawdown_m :: real
  Recharge_Volume_m3 :: real

text \<open>The two variables the loop updates: the list \<open>cycles\<close> and \<open>cumulative_drawdown\<close>.\<close>

record state =
  cycles :: "cycle list"
  cumulative_drawdown :: real

section \<open>Library operations the code calls\<close>

text \<open>
  An exception ends the computation: \<open>raising r f\<close> goes on with \<open>f\<close> on the value of
  \<open>r\<close>, and is the error of \<open>r\<close> when it raised.
\<close>

definition raising :: "error + 'a \<Rightarrow> ('a \<Rightarrow> error + 'b) \<Rightarrow> error + 'b" where
  "raising r f = (case r of Inl e \<Rightarrow> Inl e | Inr v \<Rightarrow> f v)"

text \<open>
  Python's \<open>round(x, ndigits)\<close> on a float: the nearest multiple of \<open>10 ^ - ndigits\<close>, a
  tie going to the even one.
\<close>

definition rint :: "real \<Rightarrow> int" where
  "rint x =
     (let f = \<lfloor>x\<rfloor>; d = x - of_int f
      in if d < 1 / 2 then f else if 1 / 2 < d then f + 1 else if even f then f else f + 1)"

definition py_round :: "real \<Rightarrow> nat \<Rightarrow> real" where
  "py_round x ndigits = of_int (rint (x * 10 ^ ndigits)) / 10 ^ ndigits"

text \<open>
  \<open>xs.iloc[i]\<close>: a position, counted from the end when negative; \<open>IndexError\<close> out of
  range.
\<close>

definition iloc :: "'a list \<Rightarrow> int \<Rightarrow> error + 'a" where
  "iloc xs i =
     (let k = (if i < 0 then int (length xs) + i else i)
      in if k < 0 \<or> int (length xs) \<le> k then Inl IndexError else Inr (xs ! nat k))"

text \<open>\<open>xs.iloc[start:stop]\<close>: a slice is cut to the frame, it never raises.\<close>

definition iloc_slice :: "'a list \<Rightarrow> nat \<Rightarrow> nat \<Rightarrow> 'a list" where
  "iloc_slice xs start stop = drop start (take stop xs)"

text \<open>
  \<open>idxmin()\<close>: where the minimum stands first, \<open>ValueError\<close> on an empty column. The
  model gives the position inside the slice (the label less the slice's start), and
  \<open>cycle_data.loc[min_level_idx, ...]\<close> reads that position.
\<close>

fun idxmin_scan :: "real list \<Rightarrow> nat \<Rightarrow> nat \<Rightarrow> real \<Rightarrow> nat" where
  "idxmin_scan [] i best_i best = best_i"
| "idxmin_scan (v # vs) i best_i best =
     (if v < best then idxmin_scan vs (Suc i) i v else idxmin_scan vs (Suc i) best_i best)"

definition idxmin :: "real list \<Rightarrow> error + nat" where
  "idxmin vs = (case vs of [] \<Rightarrow> Inl ValueError | v # rest \<Rightarrow> Inr (idxmin_scan rest 1 0 v))"

text \<open>A division of numpy floats: no real number when the divisor is 0.\<close>

definition np_div :: "real \<Rightarrow> real \<Rightarrow> error + real" where
  "np_div a b = (if b = 0 then Inl NonFinite else Inr (a / b))"

subsection \<open>Peak detection: \<open>scipy.signal.find_peaks(levels, prominence=0)\<close>\<close>

text \<open>
  \<open>find_peaks\<close> is the library's. It scans for the local maxima (a sample, or the middle
  of a flat run of samples, with a smaller sample right before and right after; never the
  first or the last sample), computes each one's prominence and keeps those whose
  prominence is at least the bound given. It checks nothing about the values or the
  length of its input.
\<close>

function look_ahead :: "real list \<Rightarrow> nat \<Rightarrow> nat \<Rightarrow> nat" where
  "look_ahead x i i_ahead =
     (if i_ahead < length x - 1 \<and> x ! i_ahead = x ! i
      then look_ahead x i (i_ahead + 1) else i_ahead)"
  by pat_completeness auto
termination
  by (relation "measure (\<lambda>(x, i, i_ahead). length x - i_ahead)") auto

declare look_ahead.simps [simp del]

function local_maxima_loop :: "real list \<Rightarrow> nat \<Rightarrow> nat list \<Rightarrow> nat list" where
  "local_maxima_loop x i midpoints =
     (if i < length x - 1 then
        (if x ! (i - 1) < x ! i then
           (if x ! look_ahead x i (i + 1) < x ! i
            then local_maxima_loop x (look_ahead x i (i + 1) + 1)
                   (midpoints @ [(i + (look_ahead x i (i + 1) - 1)) div 2])
            else local_maxima_loop x (i + 1) midpoints)
         else local_maxima_loop x (i + 1) midpoints)
      else midpoints)"
  by pat_completeness auto
termination
proof (relation "measure (\<lambda>(x, i, midpoints). length x - i)")
  have ahead: "j \<le> look_ahead x i j" for x i j
  proof (induction x i j rule: look_ahead.induct)
    case (1 x i i_ahead)
    then show ?case
      by (subst look_ahead.simps) (auto simp: le_Suc_eq)
  qed
  fix x :: "real list" and i :: nat and midpoints :: "nat list"
  assume "i < length x - 1"
  then show "((x, look_ahead x i (i + 1) + 1, midpoints @ [(i + (look_ahead x i (i + 1) - 1)) div 2]),
              x, i, midpoints) \<in> measure (\<lambda>(x, i, midpoints). length x - i)"
    using ahead [of "i + 1" x i] by simp
qed auto

declare local_maxima_loop.simps [simp del]

definition local_maxima_1d :: "real list \<Rightarrow> nat list" where
  "local_maxima_1d x = local_maxima_loop x 1 []"

definition peak_prominence :: "real list \<Rightarrow> nat \<Rightarrow> real" where
  "peak_prominence x peak =
     (let left_min = fold min (takeWhile (\<lambda>v. v \<le> x ! peak) (rev (take (peak + 1) x))) (x ! peak);
          right_min = fold min (takeWhile (\<lambda>v. v \<le> x ! peak) (drop peak x)) (x ! peak)
      in x ! peak - max left_min right_min)"

definition find_peaks :: "real list \<Rightarrow> real \<Rightarrow> nat list" where
  "find_peaks x prominence =
     filter (\<lambda>peak. prominence \<le> peak_prominence x peak) (local_maxima_1d x)"

section \<open>Cycle processing\<close>

text \<open>
  Lines 70 to 107: the timings, the rates and the dictionary of an accepted cycle. Every
  division stands behind the test the code makes before it.
\<close>

definition cycle_metrics ::
  "state \<Rightarrow> row list \<Rightarrow> real \<Rightarrow> nat \<Rightarrow> real \<Rightarrow> real \<Rightarrow> error + state" where
  "cycle_metrics s cycle_data swl min_level_idx min_level max_drawdown_value =
     raising (iloc cycle_data 0) (\<lambda>first_row.
     raising (iloc cycle_data (int min_level_idx)) (\<lambda>min_row.
     raising (iloc cycle_data (- 1)) (\<lambda>last_row.
     let t_start = Timestamp first_row;
         min_time = Timestamp min_row;
         end_time = Timestamp last_row;
         time_to_max_drawdown = (min_time - t_start) / 3600;
         recovery_time = (end_time - min_time) / 3600
     in
     raising (if 0 < time_to_max_drawdown
              then np_div max_drawdown_value time_to_max_drawdown else Inr 0) (\<lambda>drawdown_rate.
     raising (if 0 < recovery_time
              then np_div max_drawdown_value recovery_time else Inr 0) (\<lambda>recharge_rate.
     let recovery_level = 9 / 10 * swl;
         recovery_subset = filter (\<lambda>r. recovery_level \<le> Level_above_Pump r) cycle_data
     in
     raising (if recovery_subset \<noteq> []
              then raising (iloc recovery_subset 0)
                     (\<lambda>r. Inr (Some (- 1 * (Timestamp r - min_time) / 3600)))
              else Inr None) (\<lambda>time_to_90_recovery.
     let cycle_duration = (end_time - t_start) / 3600
     in
     raising (if 0 < cycle_duration
              then np_div (swl - min_level) cycle_duration else Inr 0) (\<lambda>hourly_fluctuations.
     let cumulative = cumulative_drawdown s + max_drawdown_value;
         recharge_volume = max_drawdown_value * 1
     in
     Inr \<lparr>cycles = cycles s @
            [\<lparr>cycle_number = length (cycles s) + 1,
              start_time = t_start,
              SWL_m = py_round swl 1,
              Max_Drawdown_m = py_round max_drawdown_value 1,
              Drawdown_Rate_m_hr = py_round drawdown_rate 1,
              Recovery_Time_hr = py_round recovery_time 2,
              Recharge_Rate_m_hr = py_round recharge_rate 1,
              Time_to_Max_Drawdown_hr = py_round time_to_max_drawdown 2,
              Recovery_Time_90_hr = map_option (\<lambda>t. py_round t 2) time_to_90_recovery,
              Hourly_Fluctuation_m_hr = py_round hourly_fluctuations 1,
              Cumulative_Drawdown_m = py_round cumulative 1,
              Recharge_Volume_m3 = py_round recharge_volume 1\<rparr>],
           cumulative_drawdown = cumulative\<rparr>)))))))"

text \<open>
  Lines 55 to 68, then the rest of the body: one pass of the loop, for the pair
  \<open>peaks[i]\<close>, \<open>peaks[i + 1]\<close>. The two \<open>continue\<close> leave the state as it is.
\<close>

definition loop_body :: "row list \<Rightarrow> nat \<Rightarrow> nat \<Rightarrow> state \<Rightarrow> error + state" where
  "loop_body df start_idx end_idx s =
     (let cycle_data = iloc_slice df start_idx (end_idx + 1)
      in if length cycle_data < 2 then Inr s
         else
           raising (iloc cycle_data 0) (\<lambda>first_row.
           let swl = Level_above_Pump first_row
           in
           raising (idxmin (map Level_above_Pump cycle_data)) (\<lambda>min_level_idx.
           raising (iloc cycle_data (int min_level_idx)) (\<lambda>min_row.
           let min_level = Level_above_Pump min_row;
               max_drawdown_value = swl - min_level
           in if max_drawdown_value < 2 then Inr s
              else cycle_metrics s cycle_data swl min_level_idx min_level
                     max_drawdown_value))))"

text \<open>\<open>for i in range(len(peaks) - 1)\<close>: the pairs of neighbours of \<open>peaks\<close>, in order.\<close>

fun cycle_loop :: "row list \<Rightarrow> nat list \<Rightarrow> state \<Rightarrow> error + state" where
  "cycle_loop df (start_idx # end_idx # peaks) s =
     (case loop_body df start_idx end_idx s of
        Inl e \<Rightarrow> Inl e
      | Inr s' \<Rightarrow> cycle_loop df (end_idx # peaks) s')"
| "cycle_loop df peaks s = Inr s"

text \<open>
  Lines 50 to 107 for a given list of peaks (the spec's \<open>segmentCycles\<close>), and lines 43
  to 107 (peak detection, then the cycles).
\<close>

definition segmentCycles :: "row list \<Rightarrow> nat list \<Rightarrow> error + cycle list" where
  "segmentCycles df peaks =
     (case cycle_loop df peaks \<lparr>cycles = [], cumulative_drawdown = 0\<rparr> of
        Inl e \<Rightarrow> Inl e
      | Inr s \<Rightarrow> Inr (cycles s))"

definition analysis :: "row list \<Rightarrow> error + cycle list" where
  "analysis df =
     (let levels = map Level_above_Pump df;
          peaks = find_peaks levels 0
      in segmentCycles df peaks)"

text \<open>A frame of samples one hour apart, the first at time 0.\<close>

definition hourly :: "real list \<Rightarrow> row list" where
  "hourly levels =
     map (\<lambda>(i, v). \<lparr>Timestamp = 3600 * real i, Level_above_Pump = v\<rparr>)
       (zip [0 ..< length levels] levels)"

section \<open>The quantities of one cycle, without the error plumbing\<close>

text \<open>
  The candidate cycles: the slice \<open>df.iloc[peaks[i] : peaks[i + 1] + 1]\<close> of every pair of
  neighbours of \<open>peaks\<close>, in order.
\<close>

fun cycle_slices :: "row list \<Rightarrow> nat list \<Rightarrow> row list list" where
  "cycle_slices df (start_idx # end_idx # peaks) =
     iloc_slice df start_idx (end_idx + 1) # cycle_slices df (end_idx # peaks)"
| "cycle_slices df peaks = []"

text \<open>
  The local variables of lines 62 to 89 as functions of the slice \<open>cycle_data\<close>, read where
  the slice has a first row: \<open>trough\<close> is \<open>min_level_idx\<close> (as a position of the slice).
\<close>

definition trough :: "row list \<Rightarrow> nat" where
  "trough cycle_data =
     (case idxmin (map Level_above_Pump cycle_data) of Inl e \<Rightarrow> 0 | Inr k \<Rightarrow> k)"

definition swl_of :: "row list \<Rightarrow> real" where
  "swl_of cycle_data = Level_above_Pump (cycle_data ! 0)"

definition min_level_of :: "row list \<Rightarrow> real" where
  "min_level_of cycle_data = Level_above_Pump (cycle_data ! trough cycle_data)"

definition max_drawdown :: "row list \<Rightarrow> real" where
  "max_drawdown cycle_data = swl_of cycle_data - min_level_of cycle_data"

definition time_to_max_drawdown_of :: "row list \<Rightarrow> real" where
  "time_to_max_drawdown_of cycle_data =
     (Timestamp (cycle_data ! trough cycle_data) - Timestamp (cycle_data ! 0)) / 3600"

definition recovery_time_of :: "row list \<Rightarrow> real" where
  "recovery_time_of cycle_data =
     (Timestamp (last cycle_data) - Timestamp (cycle_data ! trough cycle_data)) / 3600"

definition cycle_duration_of :: "row list \<Rightarrow> real" where
  "cycle_duration_of cycle_data =
     (Timestamp (last cycle_data) - Timestamp (cycle_data ! 0)) / 3600"

definition recovery_subset_of :: "row list \<Rightarrow> row list" where
  "recovery_subset_of cycle_data =
     filter (\<lambda>r. 9 / 10 * swl_of cycle_data \<le> Level_above_Pump r) cycle_data"

text \<open>
  A candidate is accepted when neither \<open>continue\<close> is taken: the slice has two rows or
  more, and its drawdown is not under 2.
\<close>

definition accepted :: "row list \<Rightarrow> bool" where
  "accepted cycle_data \<longleftrightarrow> 2 \<le> length cycle_data \<and> 2 \<le> max_drawdown cycle_data"

definition accepted_cycles :: "row list \<Rightarrow> nat list \<Rightarrow> row list list" where
  "accepted_cycles df peaks = filter accepted (cycle_slices df peaks)"

text \<open>
  The record of an accepted cycle before any rounding: the values of lines 62 to 91, with
  the ordinal \<open>n\<close> and the running total \<open>running\<close> it is given.
\<close>

definition unrounded_cycle :: "nat \<Rightarrow> real \<Rightarrow> row list \<Rightarrow> cycle" where
  "unrounded_cycle n running cycle_data =
     \<lparr>cycle_number = n,
      start_time = Timestamp (cycle_data ! 0),
      SWL_m = swl_of cycle_data,
      Max_Drawdown_m = max_drawdown cycle_data,
      Drawdown_Rate_m_hr =
        (if 0 < time_to_max_drawdown_of cycle_data
         then max_drawdown cycle_data / time_to_max_drawdown_of cycle_data else 0),
      Recovery_Time_hr = recovery_time_of cycle_data,
      Recharge_Rate_m_hr =
        (if 0 < recovery_time_of cycle_data
         then max_drawdown cycle_data / recovery_time_of cycle_data else 0),
      Time_to_Max_Drawdown_hr = time_to_max_drawdown_of cycle_data,
      Recovery_Time_90_hr =
        (case recovery_subset_of cycle_data of
           [] \<Rightarrow> None
         | r # rs \<Rightarrow>
             Some (- 1 * (Timestamp r - Timestamp (cycle_data ! trough cycle_data)) / 3600)),
      Hourly_Fluctuation_m_hr =
        (if 0 < cycle_duration_of cycle_data
         then max_drawdown cycle_data / cycle_duration_of cycle_data else 0),
      Cumulative_Drawdown_m = running,
      Recharge_Volume_m3 = max_drawdown cycle_data * 1\<rparr>"

text \<open>
  The engine the spec describes: it numbers the accepted cycles from 1 and threads the
  running total of their drawdowns, all at full precision.
\<close>

fun number_cycles :: "nat \<Rightarrow> real \<Rightarrow> row list list \<Rightarrow> cycle list" where
  "number_cycles n running [] = []"
| "number_cycles n running (cycle_data # rest) =
     unrounded_cycle (n + 1) (running + max_drawdown cycle_data) cycle_data
       # number_cycles (n + 1) (running + max_drawdown cycle_data) rest"

definition full_precision_engine :: "row list \<Rightarrow> nat list \<Rightarrow> cycle list" where
  "full_precision_engine df peaks = number_cycles 0 0 (accepted_cycles df peaks)"

text \<open>
  The reporting boundary: one decimal for the levels and the rates, two for the durations
  in hours.
\<close>

definition present :: "cycle \<Rightarrow> cycle" where
  "present c =
     \<lparr>cycle_number = cycle_number c,
      start_time = start_time c,
      SWL_m = py_round (SWL_m c) 1,
      Max_Drawdown_m = py_round (Max_Drawdown_m c) 1,
      Drawdown_Rate_m_hr = py_round (Drawdown_Rate_m_hr c) 1,
      Recovery_Time_hr = py_round (Recovery_Time_hr c) 2,
      Recharge_Rate_m_hr = py_round (Recharge_Rate_m_hr c) 1,
      Time_to_Max_Drawdown_hr = py_round (Time_to_Max_Drawdown_hr c) 2,
      Recovery_Time_90_hr = map_option (\<lambda>t. py_round t 2) (Recovery_Time_90_hr c),
      Hourly_Fluctuation_m_hr = py_round (Hourly_Fluctuation_m_hr c) 1,
      Cumulative_Drawdown_m = py_round (Cumulative_Drawdown_m c) 1,
      Recharge_Volume_m3 = py_round (Recharge_Volume_m3 c) 1\<rparr>"

text \<open>
  What the spec calls a structurally invalid input of \<open>segmentCycles\<close>: a peak index
  outside the series, peak indices that do not ascend, or timestamps that do not increase.
\<close>

definition structurally_invalid :: "row list \<Rightarrow> nat list \<Rightarrow> bool" where
  "structurally_invalid df peaks \<longleftrightarrow>
     (\<exists>p \<in> set peaks. length df \<le> p) \<or> \<not> sorted_wrt (<) peaks
       \<or> \<not> sorted_wrt (<) (map Timestamp df)"

text \<open>
  The 90 % recovery time as the spec words it: the scan starts at the trough (the trough's
  own sample included) and stops at the first sample whose level is at least 0.9 times
  the static water level; the hours from the trough to that sample, or nothing when no
  sample from the trough on reaches that level.
\<close>

definition spec_time_to_90pct_recovery :: "row list \<Rightarrow> real option" where
  "spec_time_to_90pct_recovery cycle_data =
     (case filter (\<lambda>r. 9 / 10 * swl_of cycle_data \<le> Level_above_Pump r)
             (drop (trough cycle_data) cycle_data) of
        [] \<Rightarrow> None
      | r # rs \<Rightarrow> Some ((Timestamp r - Timestamp (cycle_data ! trough cycle_data)) / 3600))"

section \<open>Peak detection on the example series\<close>

lemma example_peaks:
  "find_peaks [10, 11, 4, 3, 9, 19 / 2, 2, 8] 0 = [1, 5]"
  by (simp add: find_peaks_def local_maxima_1d_def local_maxima_loop.simps look_ahead.simps
      peak_prominence_def)

section \<open>One pass of the loop never raises\<close>

lemma idxmin_scan_inv:
  "best_i < i \<Longrightarrow>
   (idxmin_scan vs i best_i best = best_i \<or>
      (i \<le> idxmin_scan vs i best_i best \<and> idxmin_scan vs i best_i best < i + length vs))"
proof (induction vs arbitrary: i best_i best)
  case Nil
  then show ?case by simp
next
  case (Cons v vs)
  show ?case
  proof (cases "v < best")
    case True
    from Cons.IH [of i "Suc i" v] have
      "idxmin_scan vs (Suc i) i v = i \<or>
        (Suc i \<le> idxmin_scan vs (Suc i) i v \<and> idxmin_scan vs (Suc i) i v < Suc i + length vs)"
      by simp
    with True show ?thesis by auto
  next
    case False
    from Cons.prems have "best_i < Suc i" by simp
    from Cons.IH [OF this, of best] False show ?thesis by auto
  qed
qed

lemma idxmin_Inr:
  assumes "vs \<noteq> []"
  shows "\<exists>k. idxmin vs = Inr k \<and> k < length vs"
proof -
  from assms obtain v rest where vs: "vs = v # rest" by (cases vs) auto
  from idxmin_scan_inv [of 0 1 rest v] have "idxmin_scan rest 1 0 v < 1 + length rest"
    by auto
  with vs show ?thesis by (simp add: idxmin_def)
qed

lemma trough_less: "cd \<noteq> [] \<Longrightarrow> trough cd < length cd"
  using idxmin_Inr [of "map Level_above_Pump cd"] by (auto simp: trough_def)

lemma idxmin_trough: "cd \<noteq> [] \<Longrightarrow> idxmin (map Level_above_Pump cd) = Inr (trough cd)"
  using idxmin_Inr [of "map Level_above_Pump cd"] by (auto simp: trough_def)

lemma iloc_nat: "k < length xs \<Longrightarrow> iloc xs (int k) = Inr (xs ! k)"
  by (simp add: iloc_def)

lemma iloc_0: "xs \<noteq> [] \<Longrightarrow> iloc xs 0 = Inr (xs ! 0)"
  by (simp add: iloc_def)

lemma iloc_last: "xs \<noteq> [] \<Longrightarrow> iloc xs (- 1) = Inr (last xs)"
  by (cases xs rule: rev_cases) (simp_all add: iloc_def nat_diff_distrib)

lemma guarded_div: "(if 0 < t then np_div a t else Inr 0) = Inr (if 0 < t then a / t else 0)"
  by (simp add: np_div_def)

lemma recovery_time_90:
  "(if rs \<noteq> [] then raising (iloc rs 0) (\<lambda>r. Inr (Some (f r))) else Inr None)
     = Inr (case rs of [] \<Rightarrow> None | r # rest \<Rightarrow> Some (f r))"
  by (cases rs) (simp_all add: raising_def iloc_def)

lemma raising_Inr: "raising (Inr v) f = f v"
  by (simp add: raising_def)

lemma cycle_metrics_eq:
  assumes "cd \<noteq> []"
  shows "cycle_metrics s cd (swl_of cd) (trough cd) (min_level_of cd) (max_drawdown cd) =
     Inr \<lparr>cycles = cycles s @
            [present (unrounded_cycle (length (cycles s) + 1)
               (cumulative_drawdown s + max_drawdown cd) cd)],
          cumulative_drawdown = cumulative_drawdown s + max_drawdown cd\<rparr>"
  using assms trough_less [OF assms]
  unfolding cycle_metrics_def
  by (simp add: iloc_0 iloc_last iloc_nat raising_Inr guarded_div recovery_time_90 Let_def
      present_def unrounded_cycle_def time_to_max_drawdown_of_def recovery_time_of_def
      cycle_duration_of_def recovery_subset_of_def max_drawdown_def option.map_comp
      split: list.split)

lemma loop_body_unfold:
  "loop_body df p q s =
     (if length (iloc_slice df p (q + 1)) < 2 then Inr s
      else raising (iloc (iloc_slice df p (q + 1)) 0) (\<lambda>first_row.
           raising (idxmin (map Level_above_Pump (iloc_slice df p (q + 1)))) (\<lambda>k.
           raising (iloc (iloc_slice df p (q + 1)) (int k)) (\<lambda>min_row.
             if Level_above_Pump first_row - Level_above_Pump min_row < 2 then Inr s
             else cycle_metrics s (iloc_slice df p (q + 1)) (Level_above_Pump first_row) k
                    (Level_above_Pump min_row)
                    (Level_above_Pump first_row - Level_above_Pump min_row)))))"
  unfolding loop_body_def Let_def by (rule refl)

lemma loop_body_eq:
  "loop_body df p q s =
     Inr (if accepted (iloc_slice df p (q + 1))
          then \<lparr>cycles = cycles s @
                  [present (unrounded_cycle (length (cycles s) + 1)
                     (cumulative_drawdown s + max_drawdown (iloc_slice df p (q + 1)))
                     (iloc_slice df p (q + 1)))],
                cumulative_drawdown =
                  cumulative_drawdown s + max_drawdown (iloc_slice df p (q + 1))\<rparr>
          else s)"
proof -
  define cd where "cd = iloc_slice df p (q + 1)"
  show ?thesis
    unfolding loop_body_unfold cd_def [symmetric]
  proof (cases "length cd < 2")
    case True
    then show "(if length cd < 2 then Inr s
      else raising (iloc cd 0) (\<lambda>first_row.
           raising (idxmin (map Level_above_Pump cd)) (\<lambda>k.
           raising (iloc cd (int k)) (\<lambda>min_row.
             if Level_above_Pump first_row - Level_above_Pump min_row < 2 then Inr s
             else cycle_metrics s cd (Level_above_Pump first_row) k
                    (Level_above_Pump min_row)
                    (Level_above_Pump first_row - Level_above_Pump min_row))))) =
     Inr (if accepted cd
          then \<lparr>cycles = cycles s @
                  [present (unrounded_cycle (length (cycles s) + 1)
                     (cumulative_drawdown s + max_drawdown cd) cd)],
                cumulative_drawdown = cumulative_drawdown s + max_drawdown cd\<rparr>
          else s)"
      by (simp add: accepted_def)
  next
    case False
    then have ne: "cd \<noteq> []" by auto
    have m: "cycle_metrics s cd (Level_above_Pump (cd ! 0)) (trough cd)
               (Level_above_Pump (cd ! trough cd))
               (Level_above_Pump (cd ! 0) - Level_above_Pump (cd ! trough cd)) =
             Inr \<lparr>cycles = cycles s @
                    [present (unrounded_cycle (length (cycles s) + 1)
                       (cumulative_drawdown s + max_drawdown cd) cd)],
                  cumulative_drawdown = cumulative_drawdown s + max_drawdown cd\<rparr>"
      using cycle_metrics_eq [OF ne, of s]
      by (simp add: max_drawdown_def swl_of_def min_level_of_def)
    show "(if length cd < 2 then Inr s
      else raising (iloc cd 0) (\<lambda>first_row.
           raising (idxmin (map Level_above_Pump cd)) (\<lambda>k.
           raising (iloc cd (int k)) (\<lambda>min_row.
             if Level_above_Pump first_row - Level_above_Pump min_row < 2 then Inr s
             else cycle_metrics s cd (Level_above_Pump first_row) k
                    (Level_above_Pump min_row)
                    (Level_above_Pump first_row - Level_above_Pump min_row))))) =
     Inr (if accepted cd
          then \<lparr>cycles = cycles s @
                  [present (unrounded_cycle (length (cycles s) + 1)
                     (cumulative_drawdown s + max_drawdown cd) cd)],
                cumulative_drawdown = cumulative_drawdown s + max_drawdown cd\<rparr>
          else s)"
      using False trough_less [OF ne]
      by (simp add: iloc_0 [OF ne] idxmin_trough [OF ne] iloc_nat raising_Inr m
          accepted_def max_drawdown_def swl_of_def min_level_of_def not_less)
  qed
qed

section \<open>The whole loop\<close>

text \<open>
  The loop never raises, and what it leaves in \<open>cycles\<close> is the engine's records of the
  accepted candidates, each rounded as it is stored.
\<close>

lemma cycle_loop_eq:
  "cycle_loop df peaks s =
     Inr \<lparr>cycles = cycles s @
            map present (number_cycles (length (cycles s)) (cumulative_drawdown s)
              (accepted_cycles df peaks)),
          cumulative_drawdown =
            cumulative_drawdown s + sum_list (map max_drawdown (accepted_cycles df peaks))\<rparr>"
proof (induction df peaks s rule: cycle_loop.induct)
  case (1 df start_idx end_idx peaks s)
  show ?case
  proof (cases "accepted (iloc_slice df start_idx (end_idx + 1))")
    case True
    then show ?thesis
      using 1 [OF loop_body_eq]
      by (simp add: loop_body_eq accepted_cycles_def add.assoc)
  next
    case False
    then show ?thesis
      using 1 [OF loop_body_eq]
      by (simp add: loop_body_eq accepted_cycles_def)
  qed
qed (simp_all add: accepted_cycles_def)

lemma segmentCycles_eq:
  "segmentCycles df peaks = Inr (map present (full_precision_engine df peaks))"
  by (simp add: segmentCycles_def cycle_loop_eq full_precision_engine_def)

section \<open>The records of the report, one by one\<close>

lemma length_number_cycles: "length (number_cycles n c cds) = length cds"
  by (induction cds arbitrary: n c) simp_all

lemma nth_number_cycles:
  "k < length cds \<Longrightarrow>
   number_cycles n c cds ! k =
     unrounded_cycle (n + k + 1) (c + sum_list (map max_drawdown (take (k + 1) cds))) (cds ! k)"
proof (induction cds arbitrary: n c k)
  case Nil
  then show ?case by simp
next
  case (Cons cd cds)
  show ?case
  proof (cases k)
    case 0
    then show ?thesis by simp
  next
    case (Suc j)
    with Cons.prems have "j < length cds" by simp
    from Cons.IH [OF this, of "n + 1" "c + max_drawdown cd"] Suc show ?thesis
      by (simp add: add.assoc)
  qed
qed

lemma rint_near: "\<bar>of_int (rint x) - x\<bar> \<le> 1 / 2"
proof -
  have "of_int \<lfloor>x\<rfloor> \<le> x" "x < of_int \<lfloor>x\<rfloor> + 1" by linarith+
  then show ?thesis
    by (auto simp: rint_def Let_def)
qed

lemma rint_mono: "x \<le> y \<Longrightarrow> rint x \<le> rint y"
proof (rule ccontr)
  assume le: "x \<le> y" and "\<not> rint x \<le> rint y"
  then have "rint y + 1 \<le> rint x" by simp
  then have gap: "(of_int (rint y) :: real) + 1 \<le> of_int (rint x)"
    by (metis of_int_1 of_int_add of_int_le_iff)
  from rint_near [of x] rint_near [of y] gap le have "x = y" by linarith
  with \<open>\<not> rint x \<le> rint y\<close> show False by simp
qed

lemma py_round_mono: "x \<le> y \<Longrightarrow> py_round x n \<le> py_round y n"
  by (simp add: py_round_def divide_right_mono rint_mono mult_right_mono)

lemma rint_of_int: "rint (of_int z) = z"
  by (simp add: rint_def)

lemma py_round_2: "py_round 2 1 = 2"
  by (simp add: py_round_def rint_def)

lemma py_round_0: "py_round 0 n = 0"
  by (simp add: py_round_def rint_def)

lemma accepted_nth:
  "k < length (accepted_cycles df peaks) \<Longrightarrow> accepted (accepted_cycles df peaks ! k)"
  using nth_mem [of k "accepted_cycles df peaks"] by (simp add: accepted_cycles_def)

lemma report_length:
  "length (map present (full_precision_engine df peaks)) = length (accepted_cycles df peaks)"
  by (simp add: full_precision_engine_def length_number_cycles)

lemma report_nth:
  "k < length (accepted_cycles df peaks) \<Longrightarrow>
   map present (full_precision_engine df peaks) ! k =
     present (unrounded_cycle (k + 1)
       (sum_list (map max_drawdown (take (k + 1) (accepted_cycles df peaks))))
       (accepted_cycles df peaks ! k))"
  by (simp add: full_precision_engine_def length_number_cycles nth_number_cycles)

lemma sum_take_mono:
  assumes "\<forall>cd \<in> set cds. 0 \<le> f cd" "j \<le> k"
  shows "sum_list (map f (take j cds)) \<le> (sum_list (map f (take k cds)) :: real)"
proof -
  from \<open>j \<le> k\<close> have "take k cds = take j cds @ take (k - j) (drop j cds)"
    by (metis le_add_diff_inverse take_add)
  moreover have "0 \<le> sum_list (map f (take (k - j) (drop j cds)))"
    using assms(1) by (intro sum_list_nonneg) (auto dest!: in_set_takeD in_set_dropD)
  ultimately show ?thesis by simp
qed

section \<open>What the library operations give\<close>

text \<open>
  \<open>idxmin\<close> gives the place of the minimum, the first one among equals: the trough's
  level is the least of the slice, and every row before the trough is strictly higher.
\<close>

lemma fold_min_le: "fold min vs (b :: real) \<le> b"
proof (induction vs arbitrary: b)
  case Nil
  then show ?case by simp
next
  case (Cons v vs)
  have "fold min vs (min v b) \<le> min v b" by (rule Cons.IH)
  then show ?case by simp
qed

lemma idxmin_scan_value:
  "best_i < i \<Longrightarrow>
   (if idxmin_scan vs i best_i best = best_i then best
    else vs ! (idxmin_scan vs i best_i best - i)) = fold min vs best"
proof (induction vs arbitrary: i best_i best)
  case Nil
  then show ?case by simp
next
  case (Cons v vs)
  show ?case
  proof (cases "v < best")
    case True
    let ?r = "idxmin_scan vs (Suc i) i v"
    from idxmin_scan_inv [of i "Suc i" vs v] have r: "?r = i \<or> Suc i \<le> ?r" by auto
    from Cons.IH [of i "Suc i" v]
    have "(if ?r = i then v else vs ! (?r - Suc i)) = fold min vs v" by simp
    moreover from True have "min v best = v" by simp
    moreover from Cons.prems r have "?r \<noteq> best_i" by auto
    ultimately show ?thesis using True r by (auto simp: Suc_diff_le)
  next
    case False
    let ?r = "idxmin_scan vs (Suc i) best_i best"
    from Cons.prems have b: "best_i < Suc i" by simp
    from idxmin_scan_inv [OF b, of vs best] have r: "?r = best_i \<or> Suc i \<le> ?r" by auto
    from Cons.IH [OF b, of best]
    have "(if ?r = best_i then best else vs ! (?r - Suc i)) = fold min vs best" .
    moreover from False have "min v best = best" by simp
    ultimately show ?thesis using False r Cons.prems by (auto simp: Suc_diff_le)
  qed
qed

lemma trough_is_minimum:
  assumes "cd \<noteq> []" "r \<in> set cd"
  shows "min_level_of cd \<le> Level_above_Pump r"
proof -
  from assms(1) obtain r0 rest where cd: "cd = r0 # rest" by (cases cd) auto
  let ?v = "Level_above_Pump r0" and ?vs = "map Level_above_Pump rest"
  let ?k = "idxmin_scan ?vs 1 0 ?v"
  have k: "trough cd = ?k" by (simp add: trough_def idxmin_def cd)
  from idxmin_scan_inv [of 0 1 ?vs ?v] have range: "?k = 0 \<or> (1 \<le> ?k \<and> ?k < 1 + length rest)"
    by simp
  from idxmin_scan_value [of 0 1 ?vs ?v]
  have "(if ?k = 0 then ?v else ?vs ! (?k - 1)) = fold min ?vs ?v" by simp
  with range have "Level_above_Pump (cd ! ?k) = fold min ?vs ?v"
    by (auto simp: cd nth_Cons')
  also have "\<dots> = Min (set (?v # ?vs))" by (rule Min.set_eq_fold [symmetric])
  also have "\<dots> \<le> Level_above_Pump r" using assms(2) by (intro Min_le) (auto simp: cd)
  finally show ?thesis by (simp add: min_level_of_def k)
qed

lemma idxmin_scan_first:
  "best_i < i \<Longrightarrow>
   (idxmin_scan vs i best_i best \<noteq> best_i \<longrightarrow> fold min vs best < best) \<and>
   (\<forall>m. i + m < idxmin_scan vs i best_i best \<longrightarrow> m < length vs \<longrightarrow>
      fold min vs best < vs ! m)"
proof (induction vs arbitrary: i best_i best)
  case Nil
  then show ?case by simp
next
  case (Cons v vs)
  show ?case
  proof (cases "v < best")
    case True
    let ?r = "idxmin_scan vs (Suc i) i v"
    from Cons.IH [of i "Suc i" v]
    have a: "?r \<noteq> i \<longrightarrow> fold min vs v < v"
      and b: "\<forall>m. Suc i + m < ?r \<longrightarrow> m < length vs \<longrightarrow> fold min vs v < vs ! m"
      by simp_all
    from True have mv: "min v best = v" by simp
    have "fold min vs v \<le> v" by (rule fold_min_le)
    with True have lt: "fold min vs v < best" by simp
    have "fold min vs v < (v # vs) ! m" if "i + m < ?r" "m < length (v # vs)" for m
    proof (cases m)
      case 0
      with that a show ?thesis by simp
    next
      case (Suc m')
      with that b show ?thesis by simp
    qed
    with lt True mv show ?thesis by simp
  next
    case False
    let ?r = "idxmin_scan vs (Suc i) best_i best"
    from Cons.prems have bi: "best_i < Suc i" by simp
    from Cons.IH [OF bi, of best]
    have a: "?r \<noteq> best_i \<longrightarrow> fold min vs best < best"
      and b: "\<forall>m. Suc i + m < ?r \<longrightarrow> m < length vs \<longrightarrow> fold min vs best < vs ! m"
      by simp_all
    from False have mv: "min v best = best" by simp
    have "fold min vs best < (v # vs) ! m" if "i + m < ?r" "m < length (v # vs)" for m
    proof (cases m)
      case 0
      with that Cons.prems have "?r \<noteq> best_i" by simp
      with a False 0 show ?thesis by simp
    next
      case (Suc m')
      with that b show ?thesis by simp
    qed
    with a False mv show ?thesis by simp
  qed
qed

lemma min_level_fold:
  "min_level_of (r0 # rest) =
     fold min (map Level_above_Pump rest) (Level_above_Pump r0)"
proof -
  let ?v = "Level_above_Pump r0" and ?vs = "map Level_above_Pump rest"
  let ?k = "idxmin_scan ?vs 1 0 ?v"
  from idxmin_scan_inv [of 0 1 ?vs ?v] have range: "?k = 0 \<or> (1 \<le> ?k \<and> ?k < 1 + length rest)"
    by simp
  from idxmin_scan_value [of 0 1 ?vs ?v]
  have "(if ?k = 0 then ?v else ?vs ! (?k - 1)) = fold min ?vs ?v" by simp
  with range have "Level_above_Pump ((r0 # rest) ! ?k) = fold min ?vs ?v"
    by (auto simp: nth_Cons')
  then show ?thesis by (simp add: min_level_of_def trough_def idxmin_def)
qed

lemma trough_is_first:
  assumes "cd \<noteq> []" "j < trough cd"
  shows "min_level_of cd < Level_above_Pump (cd ! j)"
proof -
  from assms(1) obtain r0 rest where cd: "cd = r0 # rest" by (cases cd) auto
  let ?v = "Level_above_Pump r0" and ?vs = "map Level_above_Pump rest"
  let ?k = "idxmin_scan ?vs 1 0 ?v"
  have k: "trough cd = ?k" by (simp add: trough_def idxmin_def cd)
  from idxmin_scan_inv [of 0 1 ?vs ?v] have range: "?k = 0 \<or> (1 \<le> ?k \<and> ?k < 1 + length rest)"
    by simp
  from idxmin_scan_first [of 0 1 ?vs ?v]
  have a: "?k \<noteq> 0 \<longrightarrow> fold min ?vs ?v < ?v"
    and b: "\<forall>m. 1 + m < ?k \<longrightarrow> m < length ?vs \<longrightarrow> fold min ?vs ?v < ?vs ! m"
    by simp_all
  show ?thesis
  proof (cases j)
    case 0
    with assms(2) k a show ?thesis by (simp add: cd min_level_fold)
  next
    case (Suc m)
    with assms(2) k range have "1 + m < ?k" "m < length ?vs" by auto
    with b have "fold min ?vs ?v < ?vs ! m" by blast
    with Suc \<open>m < length ?vs\<close> show ?thesis by (simp add: cd min_level_fold)
  qed
qed

text \<open>
  Peak detection. A prominence is never negative, so the bound 0 keeps every local
  maximum; the peaks come in ascending order, none at the first or the last sample; a
  series that never falls, or never rises, has no peak.
\<close>

lemma peak_prominence_nonneg: "0 \<le> peak_prominence x peak"
  by (simp add: peak_prominence_def Let_def fold_min_le)

lemma find_peaks_prominence_0:
  "find_peaks x 0 = local_maxima_1d x"
  by (simp add: find_peaks_def peak_prominence_nonneg)


lemma look_ahead_ge: "j \<le> look_ahead x i j"
proof (induction x i j rule: look_ahead.induct)
  case (1 x i i_ahead)
  then show ?case
    by (subst look_ahead.simps) (auto simp: le_Suc_eq)
qed

lemma look_ahead_le: "j \<le> length x - 1 \<Longrightarrow> look_ahead x i j \<le> length x - 1"
proof (induction x i j rule: look_ahead.induct)
  case (1 x i i_ahead)
  show ?case
  proof (cases "i_ahead < length x - 1 \<and> x ! i_ahead = x ! i")
    case True
    then have "i_ahead + 1 \<le> length x - 1" by simp
    from "1.IH" [OF True this] True show ?thesis
      by (subst look_ahead.simps) simp
  next
    case False
    with "1.prems" show ?thesis
      by (subst look_ahead.simps) auto
  qed
qed

lemma local_maxima_loop_interior:
  "1 \<le> i \<Longrightarrow> sorted_wrt (<) midpoints \<Longrightarrow>
   (\<forall>p \<in> set midpoints. 0 < p \<and> p < i \<and> p < length x - 1) \<Longrightarrow>
   sorted_wrt (<) (local_maxima_loop x i midpoints) \<and>
   (\<forall>p \<in> set (local_maxima_loop x i midpoints). 0 < p \<and> p < length x - 1)"
proof (induction x i midpoints rule: local_maxima_loop.induct)
  case (1 x i midpoints)
  let ?la = "look_ahead x i (i + 1)"
  let ?m = "(i + (?la - 1)) div 2"
  show ?case
  proof (cases "i < length x - 1")
    case False
    with "1.prems" show ?thesis
      by (subst local_maxima_loop.simps, subst (2) local_maxima_loop.simps) auto
  next
    case inside: True
    show ?thesis
    proof (cases "x ! (i - 1) < x ! i")
      case False
      have "\<forall>p \<in> set midpoints. 0 < p \<and> p < i + 1 \<and> p < length x - 1"
        using "1.prems"(3) by auto
      from "1.IH"(3) [OF inside False _ "1.prems"(2) this] inside False show ?thesis
        by (subst local_maxima_loop.simps, subst (2) local_maxima_loop.simps) simp
    next
      case rising: True
      show ?thesis
      proof (cases "x ! ?la < x ! i")
        case False
        have "\<forall>p \<in> set midpoints. 0 < p \<and> p < i + 1 \<and> p < length x - 1"
          using "1.prems"(3) by auto
        from "1.IH"(2) [OF inside rising False _ "1.prems"(2) this] inside rising False
        show ?thesis
          by (subst local_maxima_loop.simps, subst (2) local_maxima_loop.simps) simp
      next
        case peak: True
        from inside have "i + 1 \<le> length x - 1" by simp
        from look_ahead_le [OF this, of i] have la_le: "?la \<le> length x - 1" .
        from look_ahead_ge [of "i + 1" x i] have la_ge: "i + 1 \<le> ?la" .
        from la_ge la_le "1.prems"(1) have m: "i \<le> ?m" "?m < ?la" "?m < length x - 1" "0 < ?m"
          by auto
        have s: "sorted_wrt (<) (midpoints @ [?m])"
          using "1.prems"(2,3) m by (auto simp: sorted_wrt_append)
        have b: "\<forall>p \<in> set (midpoints @ [?m]). 0 < p \<and> p < ?la + 1 \<and> p < length x - 1"
          using "1.prems"(3) m by auto
        from "1.IH"(1) [OF inside rising peak _ s b] inside rising peak show ?thesis
          by (subst local_maxima_loop.simps, subst (2) local_maxima_loop.simps) simp
      qed
    qed
  qed
qed

lemma local_maxima_loop_sorted:
  "sorted x \<Longrightarrow> local_maxima_loop x i midpoints = midpoints"
proof (induction x i midpoints rule: local_maxima_loop.induct)
  case (1 x i midpoints)
  let ?la = "look_ahead x i (i + 1)"
  show ?case
  proof (cases "i < length x - 1")
    case False
    then show ?thesis by (subst local_maxima_loop.simps) simp
  next
    case inside: True
    then have "i + 1 \<le> length x - 1" by simp
    from look_ahead_le [OF this, of i] inside have "?la < length x" by simp
    moreover from look_ahead_ge [of "i + 1" x i] have "i \<le> ?la" by simp
    ultimately have no: "\<not> x ! ?la < x ! i"
      using "1.prems" by (simp add: sorted_nth_mono not_less)
    show ?thesis
    proof (cases "x ! (i - 1) < x ! i")
      case True
      from "1.IH"(2) [OF inside True no "1.prems"] inside True no show ?thesis
        by (subst local_maxima_loop.simps) simp
    next
      case False
      from "1.IH"(3) [OF inside False "1.prems"] inside False show ?thesis
        by (subst local_maxima_loop.simps) simp
    qed
  qed
qed

lemma local_maxima_loop_decreasing:
  "sorted (rev x) \<Longrightarrow> local_maxima_loop x i midpoints = midpoints"
proof (induction x i midpoints rule: local_maxima_loop.induct)
  case (1 x i midpoints)
  show ?case
  proof (cases "i < length x - 1")
    case False
    then show ?thesis by (subst local_maxima_loop.simps) simp
  next
    case inside: True
    from "1.prems" have "x ! i \<le> x ! (i - 1)"
      using inside sorted_rev_nth_mono [of x "i - 1" i] by simp
    then have no: "\<not> x ! (i - 1) < x ! i" by simp
    from "1.IH"(3) [OF inside no "1.prems"] inside no show ?thesis
      by (subst local_maxima_loop.simps) simp
  qed
qed

lemma find_peaks_interior:
  "sorted_wrt (<) (find_peaks x prominence) \<and>
   (\<forall>p \<in> set (find_peaks x prominence). 0 < p \<and> p < length x - 1)"
  using local_maxima_loop_interior [of 1 "[]" x]
  by (auto simp: find_peaks_def local_maxima_1d_def sorted_wrt_filter)

lemma find_peaks_monotone:
  "sorted x \<or> sorted (rev x) \<Longrightarrow> find_peaks x prominence = []"
  by (auto simp: find_peaks_def local_maxima_1d_def local_maxima_loop_sorted
      local_maxima_loop_decreasing)

text \<open>What evaluates the program on a concrete frame.\<close>

lemmas eval_defs = segmentCycles_def loop_body_def cycle_metrics_def iloc_slice_def iloc_def
  raising_def idxmin_def np_div_def Let_def py_round_def rint_def hourly_def

section \<open>Fewer than two peaks\<close>

text \<open>
  Claim C8. Whatever the series, a list of fewer than two peak indices gives an empty
  report: \<open>segmentCycles\<close> returns the empty list of cycle records, and returns it as a
  result, not as an error.
\<close>

theorem segmentCycles_few_peaks:
  "length peaks < 2 \<Longrightarrow> segmentCycles df peaks = Inr []"
proof (cases peaks)
  case Nil
  then show ?thesis by (simp add: segmentCycles_def)
next
  case (Cons p ps)
  assume "length peaks < 2"
  with Cons have "ps = []" by simp
  with Cons show ?thesis by (simp add: segmentCycles_def)
qed

theorem segmentCycles_few_peaks_witness:
  "length [3::nat] < 2 \<and> segmentCycles (hourly [10, 11, 4, 3, 9, 19 / 2, 2, 8]) [3] = Inr []"
  using segmentCycles_few_peaks [of "[3]" "hourly [10, 11, 4, 3, 9, 19 / 2, 2, 8]"] by simp

lemmas slice_defs = accepted_cycles_def accepted_def max_drawdown_def swl_of_def
  min_level_of_def trough_def time_to_max_drawdown_of_def recovery_time_of_def cycle_duration_of_def
  recovery_subset_of_def

section \<open>Only accepted cycles are reported\<close>

text \<open>
  Claim C3. The report has one record for each accepted candidate, in order, and none for
  any other: a candidate is accepted only with a drawdown of 2 or more, so every record's
  (rounded) maximum drawdown is 2 or more, and the \<open>k\<close>-th record carries the ordinal
  \<open>k\<close> (counted from 1), so that a rejected candidate uses up no ordinal.
\<close>

theorem report_holds_accepted_cycles_only:
  "\<exists>rep. segmentCycles df peaks = Inr rep \<and>
     length rep = length (accepted_cycles df peaks) \<and>
     (\<forall>k<length rep.
        cycle_number (rep ! k) = k + 1 \<and>
        Max_Drawdown_m (rep ! k) = py_round (max_drawdown (accepted_cycles df peaks ! k)) 1 \<and>
        2 \<le> max_drawdown (accepted_cycles df peaks ! k) \<and>
        2 \<le> Max_Drawdown_m (rep ! k))"
proof -
  let ?acc = "accepted_cycles df peaks"
  let ?rep = "map present (full_precision_engine df peaks)"
  have len: "length ?rep = length ?acc" by (rule report_length)
  have "cycle_number (?rep ! k) = k + 1 \<and>
        Max_Drawdown_m (?rep ! k) = py_round (max_drawdown (?acc ! k)) 1 \<and>
        2 \<le> max_drawdown (?acc ! k) \<and> 2 \<le> Max_Drawdown_m (?rep ! k)"
    if "k < length ?rep" for k
  proof -
    from that len have k: "k < length ?acc" by simp
    from accepted_nth [OF k] have big: "2 \<le> max_drawdown (?acc ! k)"
      by (simp add: accepted_def)
    from py_round_mono [OF big, of 1] have "2 \<le> py_round (max_drawdown (?acc ! k)) 1"
      unfolding py_round_2 .
    with big show ?thesis
      by (simp add: report_nth [OF k] present_def unrounded_cycle_def)
  qed
  with segmentCycles_eq [of df peaks] len show ?thesis by blast
qed

theorem report_holds_accepted_cycles_only_witness:
  "segmentCycles (hourly [0, 5, 1, 5, 4, 5, 0, 6, 0]) [1, 3, 5, 7] =
     Inr [\<lparr>cycle_number = 1, start_time = 3600, SWL_m = 5, Max_Drawdown_m = 4,
           Drawdown_Rate_m_hr = 4, Recovery_Time_hr = 1, Recharge_Rate_m_hr = 4,
           Time_to_Max_Drawdown_hr = 1, Recovery_Time_90_hr = Some 1,
           Hourly_Fluctuation_m_hr = 2, Cumulative_Drawdown_m = 4,
           Recharge_Volume_m3 = 4\<rparr>,
          \<lparr>cycle_number = 2, start_time = 18000, SWL_m = 5, Max_Drawdown_m = 5,
           Drawdown_Rate_m_hr = 5, Recovery_Time_hr = 1, Recharge_Rate_m_hr = 5,
           Time_to_Max_Drawdown_hr = 1, Recovery_Time_90_hr = Some 1,
           Hourly_Fluctuation_m_hr = 5 / 2, Cumulative_Drawdown_m = 9,
           Recharge_Volume_m3 = 5\<rparr>] \<and>
   map max_drawdown (cycle_slices (hourly [0, 5, 1, 5, 4, 5, 0, 6, 0]) [1, 3, 5, 7]) = [4, 1, 5] \<and>
   length (accepted_cycles (hourly [0, 5, 1, 5, 4, 5, 0, 6, 0]) [1, 3, 5, 7]) = 2"
  using report_holds_accepted_cycles_only [of "hourly [0, 5, 1, 5, 4, 5, 0, 6, 0]" "[1, 3, 5, 7]"]
  by (simp add: eval_defs slice_defs upt_conv_Cons)

section \<open>The running total of the drawdowns\<close>

lemma max_drawdown_nonneg:
  "cd \<in> set (accepted_cycles df peaks) \<Longrightarrow> 0 \<le> max_drawdown cd"
  by (simp add: accepted_cycles_def accepted_def)

text \<open>
  Claim C2, as the code has it. The cumulative drawdown stored with the \<open>k\<close>-th accepted
  cycle is the sum of the unrounded maximum drawdowns of the accepted cycles 1 to \<open>k\<close>,
  rounded to one decimal as it is stored. Rejected candidates are not in the sum, and the
  stored values never decrease from one record to the next.
\<close>

theorem cumulative_drawdown_is_rounded_sum:
  "\<exists>rep. segmentCycles df peaks = Inr rep \<and>
     length rep = length (accepted_cycles df peaks) \<and>
     (\<forall>k<length rep.
        Cumulative_Drawdown_m (rep ! k) =
          py_round (sum_list (map max_drawdown (take (k + 1) (accepted_cycles df peaks)))) 1) \<and>
     (\<forall>j k. j \<le> k \<and> k < length rep \<longrightarrow>
        Cumulative_Drawdown_m (rep ! j) \<le> Cumulative_Drawdown_m (rep ! k))"
proof -
  let ?acc = "accepted_cycles df peaks"
  let ?rep = "map present (full_precision_engine df peaks)"
  have len: "length ?rep = length ?acc" by (rule report_length)
  have cum: "Cumulative_Drawdown_m (?rep ! k) =
        py_round (sum_list (map max_drawdown (take (k + 1) ?acc))) 1"
    if "k < length ?rep" for k
  proof -
    from that len have k: "k < length ?acc" by simp
    show ?thesis by (simp add: report_nth [OF k] present_def unrounded_cycle_def)
  qed
  have mono: "Cumulative_Drawdown_m (?rep ! j) \<le> Cumulative_Drawdown_m (?rep ! k)"
    if "j \<le> k \<and> k < length ?rep" for j k
  proof -
    from that have j: "j < length ?rep" and k: "k < length ?rep" and jk: "j + 1 \<le> k + 1"
      by simp_all
    have "sum_list (map max_drawdown (take (j + 1) ?acc))
            \<le> sum_list (map max_drawdown (take (k + 1) ?acc))"
      by (rule sum_take_mono [OF _ jk]) (simp add: max_drawdown_nonneg)
    then show ?thesis
      unfolding cum [OF j] cum [OF k] by (rule py_round_mono)
  qed
  from segmentCycles_eq [of df peaks] len cum mono show ?thesis by blast
qed

theorem cumulative_drawdown_is_rounded_sum_witness:
  "segmentCycles (hourly [0, 5, 1, 5, 4, 5, 0, 6, 0]) [1, 3, 5, 7] =
     Inr [\<lparr>cycle_number = 1, start_time = 3600, SWL_m = 5, Max_Drawdown_m = 4,
           Drawdown_Rate_m_hr = 4, Recovery_Time_hr = 1, Recharge_Rate_m_hr = 4,
           Time_to_Max_Drawdown_hr = 1, Recovery_Time_90_hr = Some 1,
           Hourly_Fluctuation_m_hr = 2, Cumulative_Drawdown_m = 4,
           Recharge_Volume_m3 = 4\<rparr>,
          \<lparr>cycle_number = 2, start_time = 18000, SWL_m = 5, Max_Drawdown_m = 5,
           Drawdown_Rate_m_hr = 5, Recovery_Time_hr = 1, Recharge_Rate_m_hr = 5,
           Time_to_Max_Drawdown_hr = 1, Recovery_Time_90_hr = Some 1,
           Hourly_Fluctuation_m_hr = 5 / 2, Cumulative_Drawdown_m = 9,
           Recharge_Volume_m3 = 5\<rparr>] \<and>
   map max_drawdown (accepted_cycles (hourly [0, 5, 1, 5, 4, 5, 0, 6, 0]) [1, 3, 5, 7]) = [4, 5] \<and>
   py_round (4 + 5) 1 = 9"
  using cumulative_drawdown_is_rounded_sum
    [of "hourly [0, 5, 1, 5, 4, 5, 0, 6, 0]" "[1, 3, 5, 7]"]
  by (simp add: eval_defs slice_defs upt_conv_Cons)

text \<open>
  Claim C2 as stated fails: the stored value is not the exact sum. With two accepted
  cycles of drawdown 2.04 each,
  the second record holds 4.1, where the exact sum is 4.08 and the sum of the two stored
  drawdowns is 4.0.
\<close>

theorem cumulative_drawdown_not_exact_sum:
  "find_peaks (map Level_above_Pump (hourly [0, 51 / 25, 0, 51 / 25, 0, 1, 0])) 0 = [1, 3, 5] \<and>
   analysis (hourly [0, 51 / 25, 0, 51 / 25, 0, 1, 0]) =
     Inr [\<lparr>cycle_number = 1, start_time = 3600, SWL_m = 2, Max_Drawdown_m = 2,
           Drawdown_Rate_m_hr = 2, Recovery_Time_hr = 1, Recharge_Rate_m_hr = 2,
           Time_to_Max_Drawdown_hr = 1, Recovery_Time_90_hr = Some 1,
           Hourly_Fluctuation_m_hr = 1, Cumulative_Drawdown_m = 2,
           Recharge_Volume_m3 = 2\<rparr>,
          \<lparr>cycle_number = 2, start_time = 10800, SWL_m = 2, Max_Drawdown_m = 2,
           Drawdown_Rate_m_hr = 2, Recovery_Time_hr = 1, Recharge_Rate_m_hr = 2,
           Time_to_Max_Drawdown_hr = 1, Recovery_Time_90_hr = Some 1,
           Hourly_Fluctuation_m_hr = 1, Cumulative_Drawdown_m = 41 / 10,
           Recharge_Volume_m3 = 2\<rparr>] \<and>
   map max_drawdown (accepted_cycles (hourly [0, 51 / 25, 0, 51 / 25, 0, 1, 0]) [1, 3, 5])
     = [51 / 25, 51 / 25] \<and>
   (51 / 25 + 51 / 25 :: real) \<noteq> 41 / 10 \<and> (2 + 2 :: real) \<noteq> 41 / 10"
proof -
  have peaks:
    "find_peaks (map Level_above_Pump (hourly [0, 51 / 25, 0, 51 / 25, 0, 1, 0])) 0 = [1, 3, 5]"
    by (simp add: find_peaks_def local_maxima_1d_def local_maxima_loop.simps look_ahead.simps
        peak_prominence_def hourly_def upt_conv_Cons)
  show ?thesis
    unfolding analysis_def Let_def peaks
    by (simp add: eval_defs slice_defs upt_conv_Cons)
qed

section \<open>Rates over a time of zero hours\<close>

text \<open>
  Claim C4. A division by zero is an error of the model (\<open>np_div\<close> gives \<open>NonFinite\<close>),
  and the loop returns a report all the same, for every frame and every list of peaks:
  each of the three divisions stands behind a test \<open>0 < t\<close>. In the record of an accepted
  cycle, the drawdown rate is 0 when the time to the trough is 0 hours, the recharge rate
  is 0 when the recovery time is 0 hours, and the hourly fluctuation is 0 when the cycle
  lasts 0 hours.
\<close>

theorem zero_time_denominator_gives_zero_rate:
  "\<exists>rep. segmentCycles df peaks = Inr rep \<and>
     length rep = length (accepted_cycles df peaks) \<and>
     (\<forall>k<length rep.
        (time_to_max_drawdown_of (accepted_cycles df peaks ! k) = 0
           \<longrightarrow> Drawdown_Rate_m_hr (rep ! k) = 0) \<and>
        (recovery_time_of (accepted_cycles df peaks ! k) = 0
           \<longrightarrow> Recharge_Rate_m_hr (rep ! k) = 0) \<and>
        (cycle_duration_of (accepted_cycles df peaks ! k) = 0
           \<longrightarrow> Hourly_Fluctuation_m_hr (rep ! k) = 0))"
proof -
  let ?acc = "accepted_cycles df peaks"
  let ?rep = "map present (full_precision_engine df peaks)"
  have len: "length ?rep = length ?acc" by (rule report_length)
  have "(time_to_max_drawdown_of (?acc ! k) = 0 \<longrightarrow> Drawdown_Rate_m_hr (?rep ! k) = 0) \<and>
        (recovery_time_of (?acc ! k) = 0 \<longrightarrow> Recharge_Rate_m_hr (?rep ! k) = 0) \<and>
        (cycle_duration_of (?acc ! k) = 0 \<longrightarrow> Hourly_Fluctuation_m_hr (?rep ! k) = 0)"
    if "k < length ?rep" for k
  proof -
    from that len have k: "k < length ?acc" by simp
    show ?thesis
      by (simp add: report_nth [OF k] present_def unrounded_cycle_def py_round_0)
  qed
  with segmentCycles_eq [of df peaks] len show ?thesis by blast
qed

theorem zero_time_denominator_gives_zero_rate_witness:
  "segmentCycles (map (\<lambda>v. \<lparr>Timestamp = 0, Level_above_Pump = v\<rparr>) [1, 5, 1, 4, 0]) [1, 3] =
     Inr [\<lparr>cycle_number = 1, start_time = 0, SWL_m = 5, Max_Drawdown_m = 4,
           Drawdown_Rate_m_hr = 0, Recovery_Time_hr = 0, Recharge_Rate_m_hr = 0,
           Time_to_Max_Drawdown_hr = 0, Recovery_Time_90_hr = Some 0,
           Hourly_Fluctuation_m_hr = 0, Cumulative_Drawdown_m = 4,
           Recharge_Volume_m3 = 4\<rparr>] \<and>
   map time_to_max_drawdown_of
     (accepted_cycles (map (\<lambda>v. \<lparr>Timestamp = 0, Level_above_Pump = v\<rparr>) [1, 5, 1, 4, 0]) [1, 3])
     = [0] \<and>
   map recovery_time_of
     (accepted_cycles (map (\<lambda>v. \<lparr>Timestamp = 0, Level_above_Pump = v\<rparr>) [1, 5, 1, 4, 0]) [1, 3])
     = [0] \<and>
   map cycle_duration_of
     (accepted_cycles (map (\<lambda>v. \<lparr>Timestamp = 0, Level_above_Pump = v\<rparr>) [1, 5, 1, 4, 0]) [1, 3])
     = [0]"
  using zero_time_denominator_gives_zero_rate
    [of "map (\<lambda>v. \<lparr>Timestamp = 0, Level_above_Pump = v\<rparr>) [1, 5, 1, 4, 0]" "[1, 3]"]
  by (simp add: eval_defs slice_defs)

section \<open>Rounding\<close>

text \<open>
  Claim C5. The records the loop stores are the records of the full-precision engine,
  each rounded field by field (\<open>present\<close>) at the moment it is stored, and nothing rounded
  goes back into the computation: the engine's running total at the \<open>k\<close>-th accepted cycle
  is the exact sum of the unrounded drawdowns of the accepted cycles 1 to \<open>k\<close>.
\<close>

theorem rounding_only_when_stored:
  "segmentCycles df peaks = Inr (map present (full_precision_engine df peaks)) \<and>
   length (full_precision_engine df peaks) = length (accepted_cycles df peaks) \<and>
   (\<forall>k<length (accepted_cycles df peaks).
      Cumulative_Drawdown_m (full_precision_engine df peaks ! k) =
        sum_list (map max_drawdown (take (k + 1) (accepted_cycles df peaks))) \<and>
      Max_Drawdown_m (full_precision_engine df peaks ! k) =
        max_drawdown (accepted_cycles df peaks ! k))"
  by (simp add: segmentCycles_eq full_precision_engine_def length_number_cycles
      nth_number_cycles unrounded_cycle_def)

theorem rounding_only_when_stored_witness:
  "segmentCycles (hourly [0, 51 / 25, 0, 51 / 25, 0, 1, 0]) [1, 3, 5] =
     Inr (map present (full_precision_engine (hourly [0, 51 / 25, 0, 51 / 25, 0, 1, 0]) [1, 3, 5])) \<and>
   map Cumulative_Drawdown_m (full_precision_engine (hourly [0, 51 / 25, 0, 51 / 25, 0, 1, 0]) [1, 3, 5])
     = [51 / 25, 102 / 25] \<and>
   map Max_Drawdown_m (full_precision_engine (hourly [0, 51 / 25, 0, 51 / 25, 0, 1, 0]) [1, 3, 5])
     = [51 / 25, 51 / 25] \<and>
   map (\<lambda>c. Cumulative_Drawdown_m (present c))
     (full_precision_engine (hourly [0, 51 / 25, 0, 51 / 25, 0, 1, 0]) [1, 3, 5])
     = [2, 41 / 10]"
  using rounding_only_when_stored [of "hourly [0, 51 / 25, 0, 51 / 25, 0, 1, 0]" "[1, 3, 5]"]
  by (simp add: full_precision_engine_def unrounded_cycle_def present_def slice_defs
      iloc_slice_def idxmin_def hourly_def py_round_def rint_def Let_def upt_conv_Cons)

section \<open>No input is rejected\<close>

text \<open>
  Claim C7, as the code has it. \<open>segmentCycles\<close> never raises, whatever the frame and
  whatever the list of peak indices: it returns a report with one record for each
  accepted candidate, the empty report when there is none.
\<close>

theorem segmentCycles_never_raises:
  "\<exists>rep. segmentCycles df peaks = Inr rep \<and> length rep = length (accepted_cycles df peaks)"
  using segmentCycles_eq [of df peaks] report_length [of df peaks] by blast

text \<open>
  Claim C7 as stated fails: a structurally invalid input is not answered with an error.
  Peak indices that
  descend give an empty slice, which is skipped; an index beyond the frame is cut off by
  the slice; timestamps that do not increase are not looked at.
\<close>

theorem invalid_input_not_rejected:
  "structurally_invalid (hourly [10, 11, 4, 3, 9, 19 / 2, 2, 8]) [5, 1] \<and>
   segmentCycles (hourly [10, 11, 4, 3, 9, 19 / 2, 2, 8]) [5, 1] = Inr [] \<and>
   structurally_invalid (hourly [10, 11, 4, 3, 9, 19 / 2, 2, 8]) [1, 100] \<and>
   segmentCycles (hourly [10, 11, 4, 3, 9, 19 / 2, 2, 8]) [1, 100] =
     Inr [\<lparr>cycle_number = 1, start_time = 3600, SWL_m = 11, Max_Drawdown_m = 9,
           Drawdown_Rate_m_hr = 9 / 5, Recovery_Time_hr = 1, Recharge_Rate_m_hr = 9,
           Time_to_Max_Drawdown_hr = 5, Recovery_Time_90_hr = Some 5,
           Hourly_Fluctuation_m_hr = 3 / 2, Cumulative_Drawdown_m = 9,
           Recharge_Volume_m3 = 9\<rparr>] \<and>
   structurally_invalid
     (map (\<lambda>v. \<lparr>Timestamp = 0, Level_above_Pump = v\<rparr>) [1, 5, 1, 4, 0]) [1, 3] \<and>
   segmentCycles (map (\<lambda>v. \<lparr>Timestamp = 0, Level_above_Pump = v\<rparr>) [1, 5, 1, 4, 0]) [1, 3] =
     Inr [\<lparr>cycle_number = 1, start_time = 0, SWL_m = 5, Max_Drawdown_m = 4,
           Drawdown_Rate_m_hr = 0, Recovery_Time_hr = 0, Recharge_Rate_m_hr = 0,
           Time_to_Max_Drawdown_hr = 0, Recovery_Time_90_hr = Some 0,
           Hourly_Fluctuation_m_hr = 0, Cumulative_Drawdown_m = 4,
           Recharge_Volume_m3 = 4\<rparr>]"
  by (simp add: eval_defs structurally_invalid_def upt_conv_Cons)

section \<open>The 90 % recovery time\<close>

text \<open>
  Claim C10. The code searches the whole slice of the cycle, not the part from the trough
  on. When the static water level of an accepted cycle is positive, the cycle's first
  sample is at that level and so passes the test \<open>level \<ge> 0.9 * swl\<close>: the set searched is
  not empty, its first row is the first row of the cycle, the value reported is never
  absent, and it is the time from the cycle's start to the trough, the very value
  reported as the time to the maximum drawdown.
\<close>

theorem recovery_time_90_is_time_to_max_drawdown:
  "\<exists>rep. segmentCycles df peaks = Inr rep \<and>
     length rep = length (accepted_cycles df peaks) \<and>
     (\<forall>k<length rep. 0 < swl_of (accepted_cycles df peaks ! k) \<longrightarrow>
        recovery_subset_of (accepted_cycles df peaks ! k) \<noteq> [] \<and>
        hd (recovery_subset_of (accepted_cycles df peaks ! k)) = accepted_cycles df peaks ! k ! 0 \<and>
        Recovery_Time_90_hr (rep ! k) = Some (Time_to_Max_Drawdown_hr (rep ! k)))"
proof -
  let ?acc = "accepted_cycles df peaks"
  let ?rep = "map present (full_precision_engine df peaks)"
  have len: "length ?rep = length ?acc" by (rule report_length)
  have "recovery_subset_of (?acc ! k) \<noteq> [] \<and>
        hd (recovery_subset_of (?acc ! k)) = ?acc ! k ! 0 \<and>
        Recovery_Time_90_hr (?rep ! k) = Some (Time_to_Max_Drawdown_hr (?rep ! k))"
    if "k < length ?rep" and pos: "0 < swl_of (?acc ! k)" for k
  proof -
    from that len have k: "k < length ?acc" by simp
    from accepted_nth [OF k] have "2 \<le> length (?acc ! k)" by (simp add: accepted_def)
    then obtain r0 rest where cd: "?acc ! k = r0 # rest" by (cases "?acc ! k") auto
    from pos cd have "9 / 10 * swl_of (?acc ! k) \<le> Level_above_Pump r0"
      by (simp add: swl_of_def)
    with cd have sub: "recovery_subset_of (?acc ! k) =
        r0 # filter (\<lambda>r. 9 / 10 * swl_of (?acc ! k) \<le> Level_above_Pump r) rest"
      by (simp add: recovery_subset_of_def)
    from cd have first: "?acc ! k ! 0 = r0" by simp
    show ?thesis
      unfolding report_nth [OF k]
      by (simp add: sub first present_def unrounded_cycle_def time_to_max_drawdown_of_def)
  qed
  with segmentCycles_eq [of df peaks] len show ?thesis by blast
qed

theorem recovery_time_90_is_time_to_max_drawdown_witness:
  "segmentCycles (hourly [10, 11, 4, 3, 10, 21 / 2, 2, 8]) [1, 5] =
     Inr [\<lparr>cycle_number = 1, start_time = 3600, SWL_m = 11, Max_Drawdown_m = 8,
           Drawdown_Rate_m_hr = 4, Recovery_Time_hr = 2, Recharge_Rate_m_hr = 4,
           Time_to_Max_Drawdown_hr = 2, Recovery_Time_90_hr = Some 2,
           Hourly_Fluctuation_m_hr = 2, Cumulative_Drawdown_m = 8,
           Recharge_Volume_m3 = 8\<rparr>] \<and>
   map swl_of (accepted_cycles (hourly [10, 11, 4, 3, 10, 21 / 2, 2, 8]) [1, 5]) = [11] \<and>
   map (map Level_above_Pump \<circ> recovery_subset_of)
     (accepted_cycles (hourly [10, 11, 4, 3, 10, 21 / 2, 2, 8]) [1, 5]) = [[11, 10, 21 / 2]]"
  using recovery_time_90_is_time_to_max_drawdown
    [of "hourly [10, 11, 4, 3, 10, 21 / 2, 2, 8]" "[1, 5]"]
  by (simp add: eval_defs slice_defs recovery_subset_of_def upt_conv_Cons)

text \<open>
  Claim C1 says otherwise: a scan from the trough on. On the example series the cycle runs
  from index 1 to index 5; from its trough on the levels are 3, 9 and 9.5, none of them
  at 9.9 or more, so the value should be absent, and the code reports 2 hours. With the
  levels 10 and 10.5 after the trough, the first sample at 9.9 or more comes 1 hour after
  the trough, and the code reports 2 hours again.
\<close>

theorem recovery_scan_starts_at_cycle_start:
  "analysis (hourly [10, 11, 4, 3, 9, 19 / 2, 2, 8]) =
     Inr [\<lparr>cycle_number = 1, start_time = 3600, SWL_m = 11, Max_Drawdown_m = 8,
           Drawdown_Rate_m_hr = 4, Recovery_Time_hr = 2, Recharge_Rate_m_hr = 4,
           Time_to_Max_Drawdown_hr = 2, Recovery_Time_90_hr = Some 2,
           Hourly_Fluctuation_m_hr = 2, Cumulative_Drawdown_m = 8,
           Recharge_Volume_m3 = 8\<rparr>] \<and>
   accepted_cycles (hourly [10, 11, 4, 3, 9, 19 / 2, 2, 8]) [1, 5] =
     [iloc_slice (hourly [10, 11, 4, 3, 9, 19 / 2, 2, 8]) 1 6] \<and>
   spec_time_to_90pct_recovery (iloc_slice (hourly [10, 11, 4, 3, 9, 19 / 2, 2, 8]) 1 6) = None \<and>
   analysis (hourly [10, 11, 4, 3, 10, 21 / 2, 2, 8]) =
     Inr [\<lparr>cycle_number = 1, start_time = 3600, SWL_m = 11, Max_Drawdown_m = 8,
           Drawdown_Rate_m_hr = 4, Recovery_Time_hr = 2, Recharge_Rate_m_hr = 4,
           Time_to_Max_Drawdown_hr = 2, Recovery_Time_90_hr = Some 2,
           Hourly_Fluctuation_m_hr = 2, Cumulative_Drawdown_m = 8,
           Recharge_Volume_m3 = 8\<rparr>] \<and>
   spec_time_to_90pct_recovery (iloc_slice (hourly [10, 11, 4, 3, 10, 21 / 2, 2, 8]) 1 6) = Some 1"
proof -
  have peaks: "find_peaks (map Level_above_Pump (hourly [10, 11, 4, 3, 10, 21 / 2, 2, 8])) 0 = [1, 5]"
    by (simp add: find_peaks_def local_maxima_1d_def local_maxima_loop.simps look_ahead.simps
        peak_prominence_def hourly_def upt_conv_Cons)
  have peaks': "find_peaks (map Level_above_Pump (hourly [10, 11, 4, 3, 9, 19 / 2, 2, 8])) 0 = [1, 5]"
    using example_peaks by (simp add: hourly_def upt_conv_Cons)
  show ?thesis
    unfolding analysis_def Let_def peaks peaks'
    by (simp add: eval_defs slice_defs spec_time_to_90pct_recovery_def upt_conv_Cons)
qed

section \<open>The example series, end to end\<close>

text \<open>
  Claim C9, as the code has it. On the levels 10, 11, 4, 3, 9, 9.5, 2, 8, one hour apart,
  the peaks are at index 1 (level 11) and at index 5 (level 9.5), and the analysis gives
  one record: static water level 11, maximum drawdown 8 (the minimum level 3 is at index
  3, the third row of the cycle), ordinal 1, cumulative drawdown 8.
\<close>

theorem example_pipeline:
  "find_peaks [10, 11, 4, 3, 9, 19 / 2, 2, 8] 0 = [1, 5] \<and>
   [10, 11, 4, 3, 9, 19 / 2, 2, 8 :: real] ! 1 = 11 \<and>
   [10, 11, 4, 3, 9, 19 / 2, 2, 8 :: real] ! 5 = 19 / 2 \<and>
   analysis (hourly [10, 11, 4, 3, 9, 19 / 2, 2, 8]) =
     Inr [\<lparr>cycle_number = 1, start_time = 3600, SWL_m = 11, Max_Drawdown_m = 8,
           Drawdown_Rate_m_hr = 4, Recovery_Time_hr = 2, Recharge_Rate_m_hr = 4,
           Time_to_Max_Drawdown_hr = 2, Recovery_Time_90_hr = Some 2,
           Hourly_Fluctuation_m_hr = 2, Cumulative_Drawdown_m = 8,
           Recharge_Volume_m3 = 8\<rparr>] \<and>
   swl_of (iloc_slice (hourly [10, 11, 4, 3, 9, 19 / 2, 2, 8]) 1 6) = 11 \<and>
   trough (iloc_slice (hourly [10, 11, 4, 3, 9, 19 / 2, 2, 8]) 1 6) = 2 \<and>
   min_level_of (iloc_slice (hourly [10, 11, 4, 3, 9, 19 / 2, 2, 8]) 1 6) = 3"
proof -
  have peaks: "find_peaks (map Level_above_Pump (hourly [10, 11, 4, 3, 9, 19 / 2, 2, 8])) 0 = [1, 5]"
    using example_peaks by (simp add: hourly_def upt_conv_Cons)
  show ?thesis
    unfolding analysis_def Let_def peaks
    by (simp add: example_peaks eval_defs slice_defs upt_conv_Cons)
qed

text \<open>
  Claim C9 as stated fails in its indices: the second peak is not at index 6, where the
  level is 2.
\<close>

theorem example_peak_not_at_index_6:
  "find_peaks [10, 11, 4, 3, 9, 19 / 2, 2, 8] 0 \<noteq> [1, 6] \<and>
   [10, 11, 4, 3, 9, 19 / 2, 2, 8 :: real] ! 6 \<noteq> 19 / 2 \<and>
   [10, 11, 4, 3, 9, 19 / 2, 2, 8 :: real] ! 6 = 2"
  by (simp add: example_peaks)

section \<open>Peak detection checks nothing\<close>






end
